theory Spec2Isabelle
  imports Main
begin

section \<open>The stray-purge throttle test of \<^verbatim>\<open>tasks/mds_strays.py\<close>\<close>

text \<open>
  \<^verbatim>\<open>TestStrays._test_throttling\<close> deletes a fixed workload, then polls the
  \<^verbatim>\<open>mds_cache\<close> performance counters of the MDS once per second until every stray has
  been purged, checking the purge throttle on the way. The cluster is outside the
  program: its answers to \<^verbatim>\<open>perf dump\<close> are an arbitrary sequence of dictionaries,
  and the two limits are whatever \<^verbatim>\<open>get_config\<close> returned.
\<close>

subsection \<open>Data\<close>

text \<open>
  The \<^verbatim>\<open>mds_cache\<close> section of a \<^verbatim>\<open>perf dump\<close>: a dictionary from counter names
  to integers. Reading a key that is absent raises \<^verbatim>\<open>KeyError\<close>.
\<close>

type_synonym mdc_stats = "string \<rightharpoonup> int"

text \<open>
  Every way the test can fail. The \<^verbatim>\<open>RuntimeError\<close>s are kept apart by their message,
  and carry the arguments given to \<^verbatim>\<open>format\<close>, in that order:
  \<^item> \<open>TypeError\<close>: \<^verbatim>\<open>raise NotImplemented(throttle_type)\<close> (the constant
    \<^verbatim>\<open>NotImplemented\<close> is not callable, so the call itself raises);
  \<^item> \<open>KeyError\<close>: a counter missing from the dictionary;
  \<^item> \<open>Timeout\<close>: "Timeout waiting for {0} inodes to purge, stats:{1}";
  \<^item> \<open>SawMoreStrays\<close>: "Saw more strays than expected, mdc stats: {0}";
  \<^item> \<open>PurgeOpsViolates\<close>: "num_purge_ops violates threshold {0}/{1}";
  \<^item> \<open>StraysPurgingViolates\<close>: "num_strays_purging violates threshold {0}/{1}";
  \<^item> \<open>OpsHighWaterLow\<close>: "Ops in flight high water is unexpectedly low ({0} / {1})";
  \<^item> \<open>FilesHighWaterLow\<close>: "Files in flight high water is unexpectedly low ({0} / {1})";
  \<^item> \<open>AssertionError\<close>: a failed \<^verbatim>\<open>assertEqual(first, second)\<close>.
\<close>

datatype error =
    TypeError int
  | KeyError string
  | Timeout int mdc_stats
  | SawMoreStrays mdc_stats
  | PurgeOpsViolates int int
  | StraysPurgingViolates int int
  | OpsHighWaterLow int int
  | FilesHighWaterLow int int
  | AssertionError int int

definition OPS_THROTTLE :: int where
  "OPS_THROTTLE = 1"

definition FILES_THROTTLE :: int where
  "FILES_THROTTLE = 2"

definition total_inodes :: int where
  "total_inodes = 401"

definition purge_timeout :: int where
  "purge_timeout = 600"

text \<open>
  The local variables of the polling loop, and \<open>polls\<close>, the number of
  \<^verbatim>\<open>perf dump\<close> commands the MDS has answered so far (the state of the stats source:
  the \<open>n\<close>-th command gets the \<open>n\<close>-th dictionary of the sequence).
\<close>

record loop_state =
  elapsed :: int
  files_high_water :: int
  ops_high_water :: int
  polls :: nat

text \<open>How one pass through the body of \<^verbatim>\<open>while True\<close> leaves it.\<close>

datatype 'a step = Break 'a | Continue 'a

subsection \<open>Raising and sequencing\<close>

definition and_then :: "error + 'a \<Rightarrow> ('a \<Rightarrow> error + 'b) \<Rightarrow> error + 'b" where
  "and_then r f = (case r of Inl e \<Rightarrow> Inl e | Inr v \<Rightarrow> f v)"

definition getitem :: "mdc_stats \<Rightarrow> string \<Rightarrow> error + int" where
  "getitem d k = (case d k of None \<Rightarrow> Inl (KeyError k) | Some v \<Rightarrow> Inr v)"

definition assertEqual :: "int \<Rightarrow> int \<Rightarrow> error + unit" where
  "assertEqual first second = (if first = second then Inr () else Inl (AssertionError first second))"

subsection \<open>The polling loop\<close>

text \<open>
  The throttle check of the \<^verbatim>\<open>else\<close> branch (lines 88 to 99). Both kinds compare
  \<^verbatim>\<open>num_strays_purging\<close> with \<^verbatim>\<open>mds_max_purge_files\<close>; the messages differ.
\<close>

definition throttle_check :: "int \<Rightarrow> int \<Rightarrow> int \<Rightarrow> int \<Rightarrow> int \<Rightarrow> error + unit" where
  "throttle_check throttle_type num_strays_purging num_purge_ops mds_max_purge_ops mds_max_purge_files =
     (if throttle_type = OPS_THROTTLE then
        (if num_strays_purging > mds_max_purge_files
         then Inl (PurgeOpsViolates num_purge_ops mds_max_purge_ops)
         else Inr ())
      else if throttle_type = FILES_THROTTLE then
        (if num_strays_purging > mds_max_purge_files
         then Inl (StraysPurgingViolates num_strays_purging mds_max_purge_files)
         else Inr ())
      else Inl (TypeError throttle_type))"

text \<open>
  One pass through the loop body (lines 68 to 106), given the dictionary that
  \<^verbatim>\<open>perf dump\<close> returned. Logging and \<^verbatim>\<open>time.sleep(1)\<close> change none of the variables.
\<close>

definition iteration ::
  "int \<Rightarrow> int \<Rightarrow> int \<Rightarrow> mdc_stats \<Rightarrow> loop_state \<Rightarrow> error + loop_state step" where
  "iteration throttle_type mds_max_purge_ops mds_max_purge_files mdc_stats st =
     (if elapsed st \<ge> purge_timeout then Inl (Timeout total_inodes mdc_stats)
      else
        and_then (getitem mdc_stats ''num_strays'') (\<lambda>num_strays.
        and_then (getitem mdc_stats ''num_strays_purging'') (\<lambda>num_strays_purging.
        and_then (getitem mdc_stats ''num_purge_ops'') (\<lambda>num_purge_ops.
        let st1 = st\<lparr>files_high_water := max (files_high_water st) num_strays_purging,
                      ops_high_water := max (ops_high_water st) num_purge_ops\<rparr> in
        and_then (getitem mdc_stats ''strays_created'') (\<lambda>total_strays_created.
        and_then (getitem mdc_stats ''strays_purged'') (\<lambda>total_strays_purged.
        if total_strays_purged = total_inodes then Inr (Break st1)
        else if total_strays_purged > total_inodes then Inl (SawMoreStrays mdc_stats)
        else
          and_then (throttle_check throttle_type num_strays_purging num_purge_ops
                      mds_max_purge_ops mds_max_purge_files) (\<lambda>_.
          Inr (Continue (st1\<lparr>elapsed := elapsed st1 + 1\<rparr>)))))))))"

text \<open>The command \<^verbatim>\<open>perf dump\<close>: the next dictionary of the sequence.\<close>

definition perf_dump :: "(nat \<Rightarrow> mdc_stats) \<Rightarrow> loop_state \<Rightarrow> mdc_stats \<times> loop_state" where
  "perf_dump src st = (src (polls st), st\<lparr>polls := Suc (polls st)\<rparr>)"

function purge_loop ::
  "int \<Rightarrow> int \<Rightarrow> int \<Rightarrow> (nat \<Rightarrow> mdc_stats) \<Rightarrow> loop_state \<Rightarrow> error + loop_state" where
  "purge_loop throttle_type mds_max_purge_ops mds_max_purge_files src st =
     (case perf_dump src st of (mdc_stats, st0) \<Rightarrow>
        (case iteration throttle_type mds_max_purge_ops mds_max_purge_files mdc_stats st0 of
           Inl e \<Rightarrow> Inl e
         | Inr (Break st') \<Rightarrow> Inr st'
         | Inr (Continue st') \<Rightarrow>
             purge_loop throttle_type mds_max_purge_ops mds_max_purge_files src st'))"
  by pat_completeness auto
termination
  apply (relation "measure (\<lambda>(tt, mo, mf, src, st). nat (purge_timeout - elapsed st))")
   apply simp
  apply (auto simp: perf_dump_def iteration_def and_then_def getitem_def Let_def
              split: if_splits option.splits sum.splits)
  done

declare purge_loop.simps [simp del]

text \<open>
  The same loop with a bound on the number of passes through its body: \<open>None\<close> when
  the loop has not left after \<open>n\<close> passes. It serves to count the passes.
\<close>

fun purge_loop_bounded ::
  "nat \<Rightarrow> int \<Rightarrow> int \<Rightarrow> int \<Rightarrow> (nat \<Rightarrow> mdc_stats) \<Rightarrow> loop_state \<Rightarrow> (error + loop_state) option" where
  "purge_loop_bounded 0 throttle_type mds_max_purge_ops mds_max_purge_files src st = None"
| "purge_loop_bounded (Suc n) throttle_type mds_max_purge_ops mds_max_purge_files src st =
     (case perf_dump src st of (mdc_stats, st0) \<Rightarrow>
        (case iteration throttle_type mds_max_purge_ops mds_max_purge_files mdc_stats st0 of
           Inl e \<Rightarrow> Some (Inl e)
         | Inr (Break st') \<Rightarrow> Some (Inr st')
         | Inr (Continue st') \<Rightarrow>
             purge_loop_bounded n throttle_type mds_max_purge_ops mds_max_purge_files src st'))"

declare purge_loop_bounded.simps [simp del]

subsection \<open>After the loop\<close>

text \<open>
  The high-water heuristic (lines 112 to 121). The test is Python 2, so \<^verbatim>\<open>/\<close> on two
  integers is floor division. The message of the files branch is formatted with the
  ops values, as in the source. A kind that is neither constant skips the check.
\<close>

definition high_water_check :: "int \<Rightarrow> int \<Rightarrow> int \<Rightarrow> loop_state \<Rightarrow> error + unit" where
  "high_water_check throttle_type mds_max_purge_ops mds_max_purge_files st =
     (if throttle_type = OPS_THROTTLE then
        (if ops_high_water st < mds_max_purge_ops div 2
         then Inl (OpsHighWaterLow (ops_high_water st) mds_max_purge_ops)
         else Inr ())
      else if throttle_type = FILES_THROTTLE then
        (if files_high_water st < mds_max_purge_files div 2
         then Inl (FilesHighWaterLow (ops_high_water st) mds_max_purge_ops)
         else Inr ())
      else Inr ())"

text \<open>The sanity check of all stray counters (lines 124 to 130), one key after the other.\<close>

definition sanity_check :: "mdc_stats \<Rightarrow> error + unit" where
  "sanity_check mdc_stats =
     and_then (getitem mdc_stats ''num_strays'') (\<lambda>v.
     and_then (assertEqual v 0) (\<lambda>_.
     and_then (getitem mdc_stats ''num_strays_purging'') (\<lambda>v.
     and_then (assertEqual v 0) (\<lambda>_.
     and_then (getitem mdc_stats ''num_strays_delayed'') (\<lambda>v.
     and_then (assertEqual v 0) (\<lambda>_.
     and_then (getitem mdc_stats ''num_purge_ops'') (\<lambda>v.
     and_then (assertEqual v 0) (\<lambda>_.
     and_then (getitem mdc_stats ''strays_created'') (\<lambda>v.
     and_then (assertEqual v total_inodes) (\<lambda>_.
     and_then (getitem mdc_stats ''strays_purged'') (\<lambda>v.
     assertEqual v total_inodes)))))))))))"

text \<open>The variables as they are before the first pass (lines 64 to 66); no poll yet.\<close>

definition initial :: loop_state where
  "initial = \<lparr>elapsed = 0, files_high_water = 0, ops_high_water = 0, polls = 0\<rparr>"

text \<open>
  The whole of \<^verbatim>\<open>_test_throttling\<close>. Its inputs are the kind, the two limits as
  \<^verbatim>\<open>int(self.fs.get_config(...))\<close> returned them, and the answers of the MDS to
  \<^verbatim>\<open>perf dump\<close>. Setting the configuration, creating and deleting the files and
  flushing the journal act on the cluster only.
\<close>

definition test_throttling :: "int \<Rightarrow> int \<Rightarrow> int \<Rightarrow> (nat \<Rightarrow> mdc_stats) \<Rightarrow> error + unit" where
  "test_throttling throttle_type mds_max_purge_ops mds_max_purge_files src =
     (if throttle_type = OPS_THROTTLE \<or> throttle_type = FILES_THROTTLE then
        and_then (purge_loop throttle_type mds_max_purge_ops mds_max_purge_files src initial) (\<lambda>st.
        and_then (high_water_check throttle_type mds_max_purge_ops mds_max_purge_files st) (\<lambda>_.
        case perf_dump src st of (mdc_stats, _) \<Rightarrow> sanity_check mdc_stats))
      else Inl (TypeError throttle_type))"

subsection \<open>The workload script\<close>

text \<open>
  \<^verbatim>\<open>create_script\<close> runs on the client. What it does to the mount is a list of
  operations: one \<^verbatim>\<open>os.mkdir\<close>, then one \<^verbatim>\<open>open(..., 'w')\<close> with one \<^verbatim>\<open>write\<close> per
  file. A file is written as \<^verbatim>\<open>size * 'x'\<close>; the model keeps the number of bytes.
\<close>

datatype fs_op = Mkdir string | WriteFile string string nat

definition MB :: nat where
  "MB = 1024 * 1024"

definition subdir :: string where
  "subdir = ''delete_me''"

text \<open>\<^verbatim>\<open>range(start, stop, step)\<close> for a positive step.\<close>

definition py_range :: "nat \<Rightarrow> nat \<Rightarrow> nat \<Rightarrow> nat list" where
  "py_range start stop step =
     map (\<lambda>k. start + k * step) [0 ..< (stop - start + step - 1) div step]"

text \<open>How \<^verbatim>\<open>format\<close> writes a non-negative integer: its decimal digits.\<close>

definition digits :: string where
  "digits = ''0123456789''"

fun str_nat :: "nat \<Rightarrow> string" where
  "str_nat n =
     (if n < 10 then [digits ! n]
      else str_nat (n div 10) @ [digits ! (n mod 10)])"

declare str_nat.simps [simp del]

definition filename :: "nat \<Rightarrow> nat \<Rightarrow> string" where
  "filename i size_mb = str_nat i @ ''_'' @ str_nat size_mb @ ''MB.bin''"

definition create_script :: "fs_op list" where
  "create_script =
     Mkdir subdir #
     concat (map (\<lambda>i. map (\<lambda>size. WriteFile subdir (filename i (size div MB)) size)
                          (py_range 0 (16 * MB) MB))
                 (py_range 0 25 1))"

text \<open>
  The mount: its directories, and its files as (directory, name) with the size.
  \<^verbatim>\<open>os.mkdir\<close> fails on a directory that exists; \<^verbatim>\<open>open(..., 'w')\<close> fails in a directory
  that does not, truncates a file that exists and creates it otherwise.
\<close>

record mount =
  dirs :: "string list"
  files :: "((string \<times> string) \<times> nat) list"

datatype os_error = FileExists string | NoSuchDirectory string

fun perform :: "mount \<Rightarrow> fs_op \<Rightarrow> os_error + mount" where
  "perform m (Mkdir d) =
     (if d \<in> set (dirs m) then Inl (FileExists d) else Inr (m\<lparr>dirs := d # dirs m\<rparr>))"
| "perform m (WriteFile d name n) =
     (if d \<notin> set (dirs m) then Inl (NoSuchDirectory d)
      else Inr (m\<lparr>files := ((d, name), n) # filter (\<lambda>f. fst f \<noteq> (d, name)) (files m)\<rparr>))"

fun run_script :: "mount \<Rightarrow> fs_op list \<Rightarrow> os_error + mount" where
  "run_script m [] = Inr m"
| "run_script m (x # xs) =
     (case perform m x of Inl e \<Rightarrow> Inl e | Inr m' \<Rightarrow> run_script m' xs)"

definition empty_mount :: mount where
  "empty_mount = \<lparr>dirs = [], files = []\<rparr>"

text \<open>The files the script writes: directory and name, with the size in bytes.\<close>

definition workload :: "((string \<times> string) \<times> nat) list" where
  "workload = map (\<lambda>(i, k). ((subdir, filename i k), k * MB)) (List.product [0..<25] [0..<16])"

subsection \<open>Reading a run\<close>

text \<open>The value of a counter that the dictionary holds.\<close>

definition counter :: "mdc_stats \<Rightarrow> string \<Rightarrow> int" where
  "counter d k = (case d k of Some v \<Rightarrow> v | None \<Rightarrow> 0)"

text \<open>The dictionary holds the five counters that the loop body reads.\<close>

definition has_counters :: "mdc_stats \<Rightarrow> bool" where
  "has_counters d =
     (d ''num_strays'' \<noteq> None \<and> d ''num_strays_purging'' \<noteq> None \<and>
      d ''num_purge_ops'' \<noteq> None \<and> d ''strays_created'' \<noteq> None \<and>
      d ''strays_purged'' \<noteq> None)"

text \<open>
  A sample after which the loop sleeps and polls again: the purge is not complete and
  the number of strays being purged is within the files limit.
\<close>

definition waiting :: "int \<Rightarrow> mdc_stats \<Rightarrow> bool" where
  "waiting mds_max_purge_files d =
     (has_counters d \<and> counter d ''strays_purged'' < total_inodes \<and>
      counter d ''num_strays_purging'' \<le> mds_max_purge_files)"

text \<open>The running maximum of the first \<open>n\<close> values of a sequence, starting from 0.\<close>

primrec high_water :: "(nat \<Rightarrow> int) \<Rightarrow> nat \<Rightarrow> int" where
  "high_water f 0 = 0"
| "high_water f (Suc n) = max (high_water f n) (f n)"

text \<open>The variables after \<open>n\<close> samples that all left the loop waiting.\<close>

definition after_waiting :: "(nat \<Rightarrow> mdc_stats) \<Rightarrow> nat \<Rightarrow> loop_state" where
  "after_waiting src n =
     \<lparr>elapsed = int n,
      files_high_water = high_water (\<lambda>i. counter (src i) ''num_strays_purging'') n,
      ops_high_water = high_water (\<lambda>i. counter (src i) ''num_purge_ops'') n,
      polls = n\<rparr>"

text \<open>The variables at the \<^verbatim>\<open>break\<close>, when sample \<open>n\<close> is the first that does not wait.\<close>

definition completed_at :: "(nat \<Rightarrow> mdc_stats) \<Rightarrow> nat \<Rightarrow> loop_state" where
  "completed_at src n = (after_waiting src (Suc n))\<lparr>elapsed := int n\<rparr>"

text \<open>The error of the throttle check, by kind (lines 90 and 95).\<close>

definition throttle_error :: "int \<Rightarrow> int \<Rightarrow> int \<Rightarrow> mdc_stats \<Rightarrow> error" where
  "throttle_error throttle_type mds_max_purge_ops mds_max_purge_files d =
     (if throttle_type = OPS_THROTTLE
      then PurgeOpsViolates (counter d ''num_purge_ops'') mds_max_purge_ops
      else StraysPurgingViolates (counter d ''num_strays_purging'') mds_max_purge_files)"

fun is_high_water_low :: "error \<Rightarrow> bool" where
  "is_high_water_low (OpsHighWaterLow _ _) = True"
| "is_high_water_low (FilesHighWaterLow _ _) = True"
| "is_high_water_low _ = False"

text \<open>What the final sanity check accepts.\<close>

definition all_purged :: "mdc_stats \<Rightarrow> bool" where
  "all_purged d =
     (d ''num_strays'' = Some 0 \<and> d ''num_strays_purging'' = Some 0 \<and>
      d ''num_strays_delayed'' = Some 0 \<and> d ''num_purge_ops'' = Some 0 \<and>
      d ''strays_created'' = Some total_inodes \<and> d ''strays_purged'' = Some total_inodes)"

subsection \<open>Stats sources for examples\<close>

text \<open>
  A dictionary with the six stray counters, in the order \<^verbatim>\<open>num_strays\<close>,
  \<^verbatim>\<open>num_strays_purging\<close>, \<^verbatim>\<open>num_strays_delayed\<close>, \<^verbatim>\<open>num_purge_ops\<close>,
  \<^verbatim>\<open>strays_created\<close>, \<^verbatim>\<open>strays_purged\<close>.
\<close>

definition mds_cache :: "int \<Rightarrow> int \<Rightarrow> int \<Rightarrow> int \<Rightarrow> int \<Rightarrow> int \<Rightarrow> mdc_stats" where
  "mds_cache strays purging delayed ops created purged =
     [''num_strays'' \<mapsto> strays, ''num_strays_purging'' \<mapsto> purging,
      ''num_strays_delayed'' \<mapsto> delayed, ''num_purge_ops'' \<mapsto> ops,
      ''strays_created'' \<mapsto> created, ''strays_purged'' \<mapsto> purged]"

text \<open>A source that answers with the dictionaries of a list, then with \<open>d\<close> for ever.\<close>

definition replay :: "mdc_stats list \<Rightarrow> mdc_stats \<Rightarrow> nat \<Rightarrow> mdc_stats" where
  "replay ds d n = (if n < length ds then ds ! n else d)"

section \<open>Properties\<close>

subsection \<open>One pass through the loop body\<close>

lemma iteration_Continue_elapsed:
  assumes "iteration tt mo mf d st = Inr (Continue st')"
  shows "elapsed st < purge_timeout \<and> elapsed st' = elapsed st + 1"
  using assms
  by (auto simp: iteration_def and_then_def getitem_def Let_def
           split: if_splits option.splits sum.splits)

lemma getitem_counter: "d k \<noteq> None \<Longrightarrow> getitem d k = Inr (counter d k)"
  by (auto simp: getitem_def counter_def)

lemma iteration_timeout:
  "purge_timeout \<le> elapsed st \<Longrightarrow> iteration tt mo mf d st = Inl (Timeout total_inodes d)"
  by (simp add: iteration_def)

lemma iteration_counters:
  assumes "has_counters d" and "elapsed st < purge_timeout"
  shows "iteration tt mo mf d st =
     (if counter d ''strays_purged'' = total_inodes then
        Inr (Break (st\<lparr>files_high_water := max (files_high_water st) (counter d ''num_strays_purging''),
                       ops_high_water := max (ops_high_water st) (counter d ''num_purge_ops'')\<rparr>))
      else if counter d ''strays_purged'' > total_inodes then Inl (SawMoreStrays d)
      else and_then (throttle_check tt (counter d ''num_strays_purging'') (counter d ''num_purge_ops'') mo mf)
             (\<lambda>_. Inr (Continue (st\<lparr>files_high_water := max (files_high_water st) (counter d ''num_strays_purging''),
                       ops_high_water := max (ops_high_water st) (counter d ''num_purge_ops''),
                       elapsed := elapsed st + 1\<rparr>))))"
  using assms
  by (simp add: iteration_def has_counters_def getitem_counter and_then_def Let_def)

lemma iteration_KeyError:
  assumes "\<not> has_counters d" and "elapsed st < purge_timeout"
  shows "\<exists>k. iteration tt mo mf d st = Inl (KeyError k)"
  using assms
  by (auto simp: iteration_def has_counters_def getitem_def and_then_def Let_def split: option.splits)

lemma throttle_check_waiting:
  assumes "tt = OPS_THROTTLE \<or> tt = FILES_THROTTLE"
  shows "throttle_check tt purging ops mo mf =
     (if purging > mf then Inl (if tt = OPS_THROTTLE then PurgeOpsViolates ops mo else StraysPurgingViolates purging mf) else Inr ())"
  using assms by (auto simp: throttle_check_def OPS_THROTTLE_def FILES_THROTTLE_def)


subsection \<open>The loop, pass by pass\<close>

lemma purge_loop_waiting_step:
  assumes "tt = OPS_THROTTLE \<or> tt = FILES_THROTTLE"
    and "waiting mf (src n)" and "int n < purge_timeout"
  shows "purge_loop tt mo mf src (after_waiting src n) =
         purge_loop tt mo mf src (after_waiting src (Suc n))"
  using assms
  by (subst purge_loop.simps)
     (simp add: perf_dump_def iteration_counters throttle_check_waiting waiting_def
                after_waiting_def and_then_def add.commute)

lemma purge_loop_reach:
  assumes "tt = OPS_THROTTLE \<or> tt = FILES_THROTTLE"
  shows "\<forall>i<n. waiting mf (src i) \<Longrightarrow> int n \<le> purge_timeout \<Longrightarrow>
         purge_loop tt mo mf src initial = purge_loop tt mo mf src (after_waiting src n)"
proof (induction n)
  case 0
  show ?case by (simp add: initial_def after_waiting_def)
next
  case (Suc n)
  then have "purge_loop tt mo mf src initial = purge_loop tt mo mf src (after_waiting src n)"
    by simp
  also have "\<dots> = purge_loop tt mo mf src (after_waiting src (Suc n))"
    using Suc.prems assms by (intro purge_loop_waiting_step) auto
  finally show ?case .
qed

lemma purge_loop_stop:
  assumes "tt = OPS_THROTTLE \<or> tt = FILES_THROTTLE"
    and "has_counters (src n)" and "int n < purge_timeout"
  shows "purge_loop tt mo mf src (after_waiting src n) =
     (if counter (src n) ''strays_purged'' = total_inodes then Inr (completed_at src n)
      else if counter (src n) ''strays_purged'' > total_inodes then Inl (SawMoreStrays (src n))
      else if counter (src n) ''num_strays_purging'' > mf then Inl (throttle_error tt mo mf (src n))
      else purge_loop tt mo mf src (after_waiting src (Suc n)))"
  using assms
  by (subst purge_loop.simps)
     (simp add: perf_dump_def iteration_counters throttle_check_waiting throttle_error_def
                after_waiting_def completed_at_def and_then_def add.commute)

lemma purge_loop_deadline:
  "purge_loop tt mo mf src (after_waiting src (nat purge_timeout)) =
     Inl (Timeout total_inodes (src (nat purge_timeout)))"
  by (subst purge_loop.simps)
     (simp add: perf_dump_def iteration_timeout after_waiting_def purge_timeout_def)

lemma purge_loop_missing:
  assumes "\<not> has_counters (src n)" and "int n < purge_timeout"
  shows "\<exists>k. purge_loop tt mo mf src (after_waiting src n) = Inl (KeyError k)"
proof -
  obtain k where "iteration tt mo mf (src n) ((after_waiting src n)\<lparr>polls := Suc n\<rparr>) = Inl (KeyError k)"
    using iteration_KeyError [of "src n" "(after_waiting src n)\<lparr>polls := Suc n\<rparr>" tt mo mf] assms
    by (auto simp: after_waiting_def)
  then show ?thesis
    by (subst purge_loop.simps) (simp add: perf_dump_def after_waiting_def)
qed

lemma first_stop:
  fixes P :: "nat \<Rightarrow> bool"
  shows "(\<forall>i<N. P i) \<or> (\<exists>n<N. (\<forall>i<n. P i) \<and> \<not> P n)"
proof (induction N)
  case 0
  show ?case by simp
next
  case (Suc N)
  then show ?case
    by (metis less_Suc_eq)
qed


lemma purge_loop_cases:
  assumes kind: "tt = OPS_THROTTLE \<or> tt = FILES_THROTTLE"
  obtains
    (deadline) "\<forall>i<600. waiting mf (src i)"
      "purge_loop tt mo mf src initial = Inl (Timeout 401 (src 600))"
  | (missing) n k where "n < 600" "\<forall>i<n. waiting mf (src i)" "\<not> has_counters (src n)"
      "purge_loop tt mo mf src initial = Inl (KeyError k)"
  | (complete) n where "n < 600" "\<forall>i<n. waiting mf (src i)" "has_counters (src n)"
      "counter (src n) ''strays_purged'' = 401"
      "purge_loop tt mo mf src initial = Inr (completed_at src n)"
  | (more) n where "n < 600" "\<forall>i<n. waiting mf (src i)" "has_counters (src n)"
      "counter (src n) ''strays_purged'' > 401"
      "purge_loop tt mo mf src initial = Inl (SawMoreStrays (src n))"
  | (violation) n where "n < 600" "\<forall>i<n. waiting mf (src i)" "has_counters (src n)"
      "counter (src n) ''strays_purged'' < 401" "counter (src n) ''num_strays_purging'' > mf"
      "purge_loop tt mo mf src initial = Inl (throttle_error tt mo mf (src n))"
proof -
  consider "\<forall>i<600. waiting mf (src i)"
    | n where "n < 600" "\<forall>i<n. waiting mf (src i)" "\<not> waiting mf (src n)"
    using first_stop [of 600 "\<lambda>i. waiting mf (src i)"] by blast
  then show thesis
  proof cases
    case 1
    then have "purge_loop tt mo mf src initial =
        purge_loop tt mo mf src (after_waiting src (nat purge_timeout))"
      using kind by (intro purge_loop_reach) (simp_all add: purge_timeout_def)
    then have "purge_loop tt mo mf src initial = Inl (Timeout 401 (src 600))"
      by (simp add: purge_loop_deadline) (simp add: purge_timeout_def total_inodes_def)
    with 1 show thesis by (rule deadline)
  next
    case (2 n)
    then have n: "int n < purge_timeout" "int n \<le> purge_timeout"
      by (simp_all add: purge_timeout_def)
    have reach: "purge_loop tt mo mf src initial = purge_loop tt mo mf src (after_waiting src n)"
      using kind 2(2) n(2) by (rule purge_loop_reach)
    show thesis
    proof (cases "has_counters (src n)")
      case False
      then obtain k where "purge_loop tt mo mf src initial = Inl (KeyError k)"
        using purge_loop_missing [of src n tt mo mf] n(1) reach by auto
      with 2 False show thesis by (intro missing [of n k])
    next
      case True
      have stop: "purge_loop tt mo mf src (after_waiting src n) =
         (if counter (src n) ''strays_purged'' = total_inodes then Inr (completed_at src n)
          else if counter (src n) ''strays_purged'' > total_inodes then Inl (SawMoreStrays (src n))
          else if counter (src n) ''num_strays_purging'' > mf
            then Inl (throttle_error tt mo mf (src n))
          else purge_loop tt mo mf src (after_waiting src (Suc n)))"
        using kind True n(1) by (rule purge_loop_stop)
      consider "counter (src n) ''strays_purged'' = 401"
        | "counter (src n) ''strays_purged'' > 401"
        | "counter (src n) ''strays_purged'' < 401" "counter (src n) ''num_strays_purging'' > mf"
        using 2(3) True
        by (cases "counter (src n) ''strays_purged''" "401::int" rule: linorder_cases)
           (auto simp: waiting_def total_inodes_def)
      then show thesis
      proof cases
        case 1
        with 2 True reach stop show thesis
          by (intro complete [of n]) (simp_all add: total_inodes_def)
      next
        case 2
        with \<open>n < 600\<close> \<open>\<forall>i<n. waiting mf (src i)\<close> True reach stop show thesis
          by (intro more [of n]) (simp_all add: total_inodes_def)
      next
        case 3
        with \<open>n < 600\<close> \<open>\<forall>i<n. waiting mf (src i)\<close> True reach stop show thesis
          by (intro violation [of n]) (simp_all add: total_inodes_def)
      qed
    qed
  qed
qed

subsection \<open>Example sources\<close>

lemma mds_cache_counters [simp]:
  "has_counters (mds_cache a b c d e f)"
  "counter (mds_cache a b c d e f) ''num_strays'' = a"
  "counter (mds_cache a b c d e f) ''num_strays_purging'' = b"
  "counter (mds_cache a b c d e f) ''num_strays_delayed'' = c"
  "counter (mds_cache a b c d e f) ''num_purge_ops'' = d"
  "counter (mds_cache a b c d e f) ''strays_created'' = e"
  "counter (mds_cache a b c d e f) ''strays_purged'' = f"
  by (simp_all add: mds_cache_def has_counters_def counter_def)

lemma waiting_mds_cache [simp]:
  "waiting mf (mds_cache a b c d e f) \<longleftrightarrow> f < 401 \<and> b \<le> mf"
  by (simp add: waiting_def total_inodes_def)

lemma replay_simps [simp]:
  "replay [] d n = d"
  "replay (x # xs) d 0 = x"
  "replay (x # xs) d (Suc n) = replay xs d n"
  "n < k \<Longrightarrow> replay (replicate k x) d n = x"
  "replay (replicate k x) d k = d"
  by (simp_all add: replay_def)

subsection \<open>The run up to a given sample\<close>

lemma purge_loop_timeout:
  assumes "tt = OPS_THROTTLE \<or> tt = FILES_THROTTLE" and "\<forall>i<600. waiting mf (src i)"
  shows "purge_loop tt mo mf src initial = Inl (Timeout 401 (src 600))"
proof -
  have "purge_loop tt mo mf src initial =
      purge_loop tt mo mf src (after_waiting src (nat purge_timeout))"
    using assms by (intro purge_loop_reach) (simp_all add: purge_timeout_def)
  then show ?thesis
    by (simp add: purge_loop_deadline) (simp add: purge_timeout_def total_inodes_def)
qed

lemma purge_loop_sample:
  assumes "tt = OPS_THROTTLE \<or> tt = FILES_THROTTLE"
    and "n < 600" and "\<forall>i<n. waiting mf (src i)" and "has_counters (src n)"
  shows "purge_loop tt mo mf src initial =
     (if counter (src n) ''strays_purged'' = 401 then Inr (completed_at src n)
      else if counter (src n) ''strays_purged'' > 401 then Inl (SawMoreStrays (src n))
      else if counter (src n) ''num_strays_purging'' > mf then Inl (throttle_error tt mo mf (src n))
      else purge_loop tt mo mf src (after_waiting src (Suc n)))"
proof -
  have n: "int n < purge_timeout" "int n \<le> purge_timeout"
    using assms(2) by (simp_all add: purge_timeout_def)
  have "purge_loop tt mo mf src initial = purge_loop tt mo mf src (after_waiting src n)"
    using assms(1,3) n(2) by (rule purge_loop_reach)
  also have "\<dots> =
     (if counter (src n) ''strays_purged'' = total_inodes then Inr (completed_at src n)
      else if counter (src n) ''strays_purged'' > total_inodes then Inl (SawMoreStrays (src n))
      else if counter (src n) ''num_strays_purging'' > mf then Inl (throttle_error tt mo mf (src n))
      else purge_loop tt mo mf src (after_waiting src (Suc n)))"
    using assms(1,4) n(1) by (rule purge_loop_stop)
  finally show ?thesis by (simp add: total_inodes_def)
qed

lemma completed_at_simps [simp]:
  "elapsed (completed_at src n) = int n"
  "polls (completed_at src n) = Suc n"
  "files_high_water (completed_at src n) = high_water (\<lambda>i. counter (src i) ''num_strays_purging'') (Suc n)"
  "ops_high_water (completed_at src n) = high_water (\<lambda>i. counter (src i) ''num_purge_ops'') (Suc n)"
  by (simp_all add: completed_at_def after_waiting_def)

subsection \<open>The deadline\<close>

text \<open>
  Claim C4. When the first 600 samples all leave the loop waiting, \<^verbatim>\<open>elapsed\<close> reaches
  \<^verbatim>\<open>purge_timeout\<close> = 600, and the run fails with the timeout error, which carries
  the count of 401 inodes and the sample taken last (the one with index 600); no other
  run ends in that error. A pass through the body that starts with 600 or more elapsed
  raises the timeout error with the dictionary it has just been given, whatever that
  dictionary holds: the check comes after the poll and before every other test.
\<close>

theorem timeout_carries_last_snapshot:
  assumes "tt = OPS_THROTTLE \<or> tt = FILES_THROTTLE"
  shows "((\<forall>i<600. waiting mf (src i)) \<longleftrightarrow>
            purge_loop tt mo mf src initial = Inl (Timeout 401 (src 600)))
       \<and> (\<forall>d st. 600 \<le> elapsed st \<longrightarrow> iteration tt mo mf d st = Inl (Timeout 401 d))"
proof -
  have "(\<forall>i<600. waiting mf (src i)) \<longleftrightarrow>
            purge_loop tt mo mf src initial = Inl (Timeout 401 (src 600))"
    by (rule purge_loop_cases [OF assms, where mf = mf and src = src and mo = mo])
       (auto simp: throttle_error_def waiting_def total_inodes_def)
  moreover have "\<forall>d st. 600 \<le> elapsed st \<longrightarrow> iteration tt mo mf d st = Inl (Timeout 401 d)"
    by (simp add: iteration_def purge_timeout_def total_inodes_def)
  ultimately show ?thesis by simp
qed

theorem timeout_carries_last_snapshot_witness:
  "purge_loop FILES_THROTTLE 10 10 (replay [] (mds_cache 7 5 2 5 401 0)) initial
     = Inl (Timeout 401 (mds_cache 7 5 2 5 401 0))
   \<and> iteration FILES_THROTTLE 10 10 (mds_cache 0 0 0 0 401 401) (initial\<lparr>elapsed := 600\<rparr>)
     = Inl (Timeout 401 (mds_cache 0 0 0 0 401 401))"
  using timeout_carries_last_snapshot [of FILES_THROTTLE 10 "replay [] (mds_cache 7 5 2 5 401 0)" 10]
  by simp

subsection \<open>The throttle bound\<close>

text \<open>
  Claim C1, as the code has it. For both kinds: when a sample taken before the deadline
  (one of the first 600) holds the five counters and is neither complete nor beyond
  the expected count, the loop compares \<^verbatim>\<open>num_strays_purging\<close> with
  \<^verbatim>\<open>mds_max_purge_files\<close> and the run fails with the error of the throttle check when
  the counter is larger. So in a run that leaves the loop by \<^verbatim>\<open>break\<close>, every sample
  but the last one (the completing one, which is not compared) has
  \<^verbatim>\<open>num_strays_purging\<close> at most \<^verbatim>\<open>mds_max_purge_files\<close>.
\<close>

theorem throttle_bound_checked:
  assumes "tt = OPS_THROTTLE \<or> tt = FILES_THROTTLE"
  shows "(\<forall>n<600. (\<forall>i<n. waiting mf (src i)) \<and> has_counters (src n) \<and>
             counter (src n) ''strays_purged'' < 401 \<and>
             counter (src n) ''num_strays_purging'' > mf \<longrightarrow>
           purge_loop tt mo mf src initial = Inl (throttle_error tt mo mf (src n)))
       \<and> (\<forall>st. purge_loop tt mo mf src initial = Inr st \<longrightarrow>
            (\<forall>i. Suc i < polls st \<longrightarrow> counter (src i) ''num_strays_purging'' \<le> mf))"
proof -
  have "purge_loop tt mo mf src initial = Inl (throttle_error tt mo mf (src n))"
    if "n < 600" "\<forall>i<n. waiting mf (src i)" "has_counters (src n)"
      "counter (src n) ''strays_purged'' < 401" "counter (src n) ''num_strays_purging'' > mf"
    for n
    using purge_loop_sample [OF assms that(1,2,3), of mo] that(4,5) by simp
  moreover have "counter (src i) ''num_strays_purging'' \<le> mf"
    if "purge_loop tt mo mf src initial = Inr st" "Suc i < polls st" for st i
    using that
    by (rule_tac purge_loop_cases [OF assms, where mf = mf and src = src and mo = mo])
       (auto simp: waiting_def)
  ultimately show ?thesis by blast
qed

theorem throttle_bound_checked_witness:
  "purge_loop FILES_THROTTLE 10 10
     (replay [mds_cache 20 5 0 3 401 0] (mds_cache 20 11 0 3 401 7)) initial
     = Inl (StraysPurgingViolates 11 10)"
proof -
  have kind: "FILES_THROTTLE = OPS_THROTTLE \<or> FILES_THROTTLE = FILES_THROTTLE"
    by simp
  note checked = throttle_bound_checked [OF kind, of 10
      "replay [mds_cache 20 5 0 3 401 0] (mds_cache 20 11 0 3 401 7)" 10,
      THEN conjunct1, rule_format, of 1]
  have "purge_loop FILES_THROTTLE 10 10
     (replay [mds_cache 20 5 0 3 401 0] (mds_cache 20 11 0 3 401 7)) initial
     = Inl (throttle_error FILES_THROTTLE 10 10
         (replay [mds_cache 20 5 0 3 401 0] (mds_cache 20 11 0 3 401 7) 1))"
    by (rule checked) simp_all
  then show ?thesis
    by (simp add: throttle_error_def OPS_THROTTLE_def FILES_THROTTLE_def)
qed

text \<open>
  The claim as it was stated fails at the completing sample: a run whose first sample
  reports 401 strays purged and 11 strays being purged, with a files limit of 10,
  leaves the loop by \<^verbatim>\<open>break\<close>.
\<close>

theorem completing_sample_not_checked:
  "purge_loop FILES_THROTTLE 10 10 (replay [] (mds_cache 11 11 0 11 401 401)) initial
     = Inr \<lparr>elapsed = 0, files_high_water = 11, ops_high_water = 11, polls = 1\<rparr>
   \<and> \<not> counter (replay [] (mds_cache 11 11 0 11 401 401) 0) ''num_strays_purging'' \<le> 10"
  using purge_loop_sample [of FILES_THROTTLE 0 10 "replay [] (mds_cache 11 11 0 11 401 401)" 10]
  by (simp add: completed_at_def after_waiting_def)

subsection \<open>What the throttle error reports\<close>

text \<open>
  Claim C2 says that the error of the throttle check reports the counter and the limit
  whose comparison failed. In the ops kind it does not: with an ops limit of 5, a files
  limit of 100000000 and a first sample with 100000001 strays being purged and 3 purge
  operations in flight, the comparison that fails is 100000001 > 100000000, and the
  error reads "num_purge_ops violates threshold 3/5".
\<close>

theorem ops_violation_reports_other_values:
  "purge_loop OPS_THROTTLE 5 100000000
     (replay [] (mds_cache 100000001 100000001 0 3 100000001 0)) initial
     = Inl (PurgeOpsViolates 3 5)
   \<and> counter (replay [] (mds_cache 100000001 100000001 0 3 100000001 0) 0)
       ''num_strays_purging'' > 100000000"
  using purge_loop_sample [of OPS_THROTTLE 0 100000000
          "replay [] (mds_cache 100000001 100000001 0 3 100000001 0)" 5]
  by (simp add: throttle_error_def)

subsection \<open>Completion and overshoot\<close>

text \<open>
  Claim C3, as the code has it. For both kinds, the loop is left by \<^verbatim>\<open>break\<close> exactly
  when a sample taken before the deadline (one of the first 600, reached through
  waiting samples only, and holding the five counters) reports 401 strays purged; and
  when such a sample reports more than 401, the run fails with "Saw more strays than
  expected", carrying that sample.
\<close>

theorem completion_and_overshoot:
  assumes "tt = OPS_THROTTLE \<or> tt = FILES_THROTTLE"
  shows "((\<exists>st. purge_loop tt mo mf src initial = Inr st) \<longleftrightarrow>
            (\<exists>n<600. (\<forall>i<n. waiting mf (src i)) \<and> has_counters (src n) \<and>
               counter (src n) ''strays_purged'' = 401))
       \<and> (\<forall>n<600. (\<forall>i<n. waiting mf (src i)) \<and> has_counters (src n) \<and>
               counter (src n) ''strays_purged'' > 401 \<longrightarrow>
             purge_loop tt mo mf src initial = Inl (SawMoreStrays (src n)))"
proof -
  have "\<exists>n<600. (\<forall>i<n. waiting mf (src i)) \<and> has_counters (src n) \<and>
               counter (src n) ''strays_purged'' = 401"
    if "purge_loop tt mo mf src initial = Inr st" for st
    using that
    by (rule_tac purge_loop_cases [OF assms, where mf = mf and src = src and mo = mo]) auto
  moreover have "purge_loop tt mo mf src initial = Inr (completed_at src n)"
    if "n < 600" "\<forall>i<n. waiting mf (src i)" "has_counters (src n)"
      "counter (src n) ''strays_purged'' = 401" for n
    using purge_loop_sample [OF assms that(1,2,3), of mo] that(4) by simp
  moreover have "purge_loop tt mo mf src initial = Inl (SawMoreStrays (src n))"
    if "n < 600" "\<forall>i<n. waiting mf (src i)" "has_counters (src n)"
      "counter (src n) ''strays_purged'' > 401" for n
    using purge_loop_sample [OF assms that(1,2,3), of mo] that(4) by simp
  ultimately show ?thesis by blast
qed

theorem completion_and_overshoot_witness:
  "(\<exists>st. purge_loop OPS_THROTTLE 10 10
      (replay [mds_cache 20 5 0 3 401 0] (mds_cache 0 0 0 0 401 401)) initial = Inr st)
   \<and> purge_loop OPS_THROTTLE 10 10
      (replay [mds_cache 20 5 0 3 401 0] (mds_cache 0 0 0 0 401 402)) initial
      = Inl (SawMoreStrays (mds_cache 0 0 0 0 401 402))"
proof -
  have kind: "OPS_THROTTLE = OPS_THROTTLE \<or> OPS_THROTTLE = FILES_THROTTLE"
    by simp
  let ?done = "replay [mds_cache 20 5 0 3 401 0] (mds_cache 0 0 0 0 401 401)"
  let ?more = "replay [mds_cache 20 5 0 3 401 0] (mds_cache 0 0 0 0 401 402)"
  have "\<exists>n<600. (\<forall>i<n. waiting 10 (?done i)) \<and> has_counters (?done n) \<and>
          counter (?done n) ''strays_purged'' = 401"
    by (rule exI [of _ 1]) simp
  then have "\<exists>st. purge_loop OPS_THROTTLE 10 10 ?done initial = Inr st"
    using completion_and_overshoot [OF kind, of 10 10 ?done] by simp
  moreover have "purge_loop OPS_THROTTLE 10 10 ?more initial = Inl (SawMoreStrays (?more 1))"
    by (rule completion_and_overshoot [OF kind, of 10 10 ?more, THEN conjunct2, rule_format, of 1])
       simp_all
  ultimately show ?thesis by simp
qed

text \<open>
  The claim as it was stated fails for the sample taken at the deadline: after 600
  waiting samples, a sample that reports 402 strays purged is answered with the
  timeout error, not with "Saw more strays than expected".
\<close>

theorem overshoot_at_deadline_times_out:
  "purge_loop OPS_THROTTLE 10 10
     (replay (replicate 600 (mds_cache 20 5 0 3 401 0)) (mds_cache 0 0 0 0 401 402)) initial
     = Inl (Timeout 401 (mds_cache 0 0 0 0 401 402))
   \<and> counter (replay (replicate 600 (mds_cache 20 5 0 3 401 0)) (mds_cache 0 0 0 0 401 402) 600)
       ''strays_purged'' > 401"
  using purge_loop_timeout [of OPS_THROTTLE 10
          "replay (replicate 600 (mds_cache 20 5 0 3 401 0)) (mds_cache 0 0 0 0 401 402)" 10]
  by simp

subsection \<open>Completion before the throttle check\<close>

text \<open>
  Claim C9, as the code has it. For both kinds, when a sample taken before the deadline
  reports 401 strays purged and, at the same time, more strays being purged than
  \<^verbatim>\<open>mds_max_purge_files\<close>, the loop is left by \<^verbatim>\<open>break\<close>, with the high-water marks
  that include this sample. And a pass through the body raises the error of the
  throttle check only for a dictionary that reports fewer than 401 strays purged.
\<close>

theorem completion_precedes_throttle_check:
  assumes "tt = OPS_THROTTLE \<or> tt = FILES_THROTTLE"
    and "n < 600" and "\<forall>i<n. waiting mf (src i)" and "has_counters (src n)"
    and "counter (src n) ''strays_purged'' = 401"
    and "counter (src n) ''num_strays_purging'' > mf"
  shows "purge_loop tt mo mf src initial = Inr (completed_at src n)
       \<and> (\<forall>d st. iteration tt mo mf d st = Inl (throttle_error tt mo mf d) \<longrightarrow>
            counter d ''strays_purged'' < 401)"
proof -
  have "purge_loop tt mo mf src initial = Inr (completed_at src n)"
    using purge_loop_sample [OF assms(1,2,3,4), of mo] assms(5) by simp
  moreover have "counter d ''strays_purged'' < 401"
    if "iteration tt mo mf d st = Inl (throttle_error tt mo mf d)" for d st
    using that
    by (auto simp: iteration_def and_then_def getitem_def counter_def throttle_error_def
          total_inodes_def Let_def split: if_splits option.splits)
  ultimately show ?thesis by blast
qed

theorem completion_precedes_throttle_check_witness:
  "purge_loop FILES_THROTTLE 10 10
     (replay [mds_cache 20 5 0 3 401 0] (mds_cache 11 11 0 11 401 401)) initial
     = Inr \<lparr>elapsed = 1, files_high_water = 11, ops_high_water = 11, polls = 2\<rparr>"
proof -
  have kind: "FILES_THROTTLE = OPS_THROTTLE \<or> FILES_THROTTLE = FILES_THROTTLE"
    by simp
  let ?src = "replay [mds_cache 20 5 0 3 401 0] (mds_cache 11 11 0 11 401 401)"
  have "purge_loop FILES_THROTTLE 10 10 ?src initial = Inr (completed_at ?src 1)"
    by (rule completion_precedes_throttle_check [OF kind, of 1 10 ?src 10, THEN conjunct1])
       simp_all
  then show ?thesis
    by (simp add: completed_at_def after_waiting_def)
qed

text \<open>
  The claim as it was stated fails for the sample taken at the deadline: after 600
  waiting samples, a sample with 401 strays purged and 11 strays being purged (limit 10)
  is answered with the timeout error, and the loop is not left by \<^verbatim>\<open>break\<close>.
\<close>

theorem completion_at_deadline_times_out:
  "purge_loop FILES_THROTTLE 10 10
     (replay (replicate 600 (mds_cache 20 5 0 3 401 0)) (mds_cache 11 11 0 11 401 401)) initial
     = Inl (Timeout 401 (mds_cache 11 11 0 11 401 401))
   \<and> counter (replay (replicate 600 (mds_cache 20 5 0 3 401 0)) (mds_cache 11 11 0 11 401 401) 600)
       ''strays_purged'' = 401
   \<and> counter (replay (replicate 600 (mds_cache 20 5 0 3 401 0)) (mds_cache 11 11 0 11 401 401) 600)
       ''num_strays_purging'' > 10"
  using purge_loop_timeout [of FILES_THROTTLE 10
          "replay (replicate 600 (mds_cache 20 5 0 3 401 0)) (mds_cache 11 11 0 11 401 401)" 10]
  by simp

subsection \<open>Termination\<close>

lemma purge_loop_bounded_enough:
  "nat (purge_timeout - elapsed st) < n \<Longrightarrow>
   purge_loop_bounded n tt mo mf src st = Some (purge_loop tt mo mf src st)"
proof (induction n arbitrary: st)
  case 0
  then show ?case by simp
next
  case (Suc n)
  show ?case
  proof (cases "iteration tt mo mf (src (polls st)) (st\<lparr>polls := Suc (polls st)\<rparr>)")
    case (Inl e)
    then show ?thesis
      by (subst purge_loop.simps) (simp add: perf_dump_def purge_loop_bounded.simps)
  next
    case (Inr r)
    show ?thesis
    proof (cases r)
      case (Break st')
      with Inr show ?thesis
        by (subst purge_loop.simps) (simp add: perf_dump_def purge_loop_bounded.simps)
    next
      case (Continue st')
      with Inr have "elapsed st < purge_timeout" "elapsed st' = elapsed st + 1"
        using iteration_Continue_elapsed [of tt mo mf "src (polls st)" "st\<lparr>polls := Suc (polls st)\<rparr>" st']
        by simp_all
      with Suc.prems have "nat (purge_timeout - elapsed st') < n"
        by simp
      then have "purge_loop_bounded n tt mo mf src st' = Some (purge_loop tt mo mf src st')"
        by (rule Suc.IH)
      with Inr Continue show ?thesis
        by (subst purge_loop.simps) (simp add: perf_dump_def purge_loop_bounded.simps)
    qed
  qed
qed



lemma iteration_outcome:
  "case iteration tt mo mf d st of
     Inl e \<Rightarrow> True
   | Inr (Break st') \<Rightarrow> True
   | Inr (Continue st') \<Rightarrow> elapsed st' = elapsed st + 1"
proof (cases "iteration tt mo mf d st")
  case (Inl e)
  then show ?thesis by simp
next
  case (Inr r)
  show ?thesis
  proof (cases r)
    case (Break st')
    with Inr show ?thesis by simp
  next
    case (Continue st')
    with Inr have "iteration tt mo mf d st = Inr (Continue st')"
      by simp
    then have "elapsed st' = elapsed st + 1"
      by (rule iteration_Continue_elapsed [THEN conjunct2])
    with Inr Continue show ?thesis by simp
  qed
qed

text \<open>
  Claim C10. Whatever the kind, the limits and the sequence of dictionaries are, the
  loop has left after at most 601 passes through its body: bounded to 601 passes it
  gives the result of the loop, never \<open>None\<close>. Every pass either raises, breaks, or
  goes on with \<^verbatim>\<open>elapsed\<close> one larger; and a pass that starts with \<^verbatim>\<open>elapsed\<close> at 600
  or more raises the timeout error.
\<close>

theorem loop_leaves_within_601_passes:
  "purge_loop_bounded 601 tt mo mf src initial = Some (purge_loop tt mo mf src initial)
   \<and> (case iteration tt mo mf d st of
        Inl e \<Rightarrow> True
      | Inr (Break st') \<Rightarrow> True
      | Inr (Continue st') \<Rightarrow> elapsed st' = elapsed st + 1)
   \<and> (600 \<le> elapsed st \<longrightarrow> iteration tt mo mf d st = Inl (Timeout 401 d))"
proof (intro conjI)
  have "nat (purge_timeout - elapsed initial) < 601"
    by (simp add: initial_def purge_timeout_def)
  then show "purge_loop_bounded 601 tt mo mf src initial = Some (purge_loop tt mo mf src initial)"
    by (rule purge_loop_bounded_enough)
  show "case iteration tt mo mf d st of
        Inl e \<Rightarrow> True
      | Inr (Break st') \<Rightarrow> True
      | Inr (Continue st') \<Rightarrow> elapsed st' = elapsed st + 1"
    by (rule iteration_outcome)
  show "600 \<le> elapsed st \<longrightarrow> iteration tt mo mf d st = Inl (Timeout 401 d)"
    by (simp add: iteration_def purge_timeout_def total_inodes_def)
qed

theorem loop_leaves_within_601_passes_witness:
  "purge_loop_bounded 601 FILES_THROTTLE 10 10 (replay [] (mds_cache 7 5 2 5 401 0)) initial
     = Some (Inl (Timeout 401 (mds_cache 7 5 2 5 401 0)))
   \<and> iteration FILES_THROTTLE 10 10 (mds_cache 7 5 2 5 401 0) (initial\<lparr>elapsed := 600\<rparr>)
     = Inl (Timeout 401 (mds_cache 7 5 2 5 401 0))"
proof -
  note t = loop_leaves_within_601_passes [where tt = FILES_THROTTLE and mo = 10 and mf = 10
      and src = "replay [] (mds_cache 7 5 2 5 401 0)" and d = "mds_cache 7 5 2 5 401 0"
      and st = "initial\<lparr>elapsed := 600\<rparr>"]
  have "purge_loop FILES_THROTTLE 10 10 (replay [] (mds_cache 7 5 2 5 401 0)) initial
     = Inl (Timeout 401 (mds_cache 7 5 2 5 401 0))"
    using purge_loop_timeout [of FILES_THROTTLE 10 "replay [] (mds_cache 7 5 2 5 401 0)" 10]
    by simp
  moreover have "elapsed (initial\<lparr>elapsed := 600\<rparr>) = 600"
    by simp
  ultimately show ?thesis
    using t by simp
qed

subsection \<open>High-water marks\<close>

lemma high_water_Max:
  "high_water f n = Max (insert 0 (f ` {..<n}))"
proof (induction n)
  case 0
  show ?case by simp
next
  case (Suc n)
  have "Max (insert 0 (f ` {..<Suc n})) = Max (insert (f n) (insert 0 (f ` {..<n})))"
    by (simp add: lessThan_Suc insert_commute)
  also have "\<dots> = max (f n) (Max (insert 0 (f ` {..<n})))"
    by (rule Max_insert) simp_all
  finally show ?case
    using Suc.IH by (simp add: max.commute)
qed

text \<open>
  Claim C7. When sample \<open>n\<close> is taken before the deadline, after waiting samples only,
  and reports 401 strays purged, the run leaves the loop by \<^verbatim>\<open>break\<close> having taken
  \<open>n + 1\<close> samples, with \<^verbatim>\<open>ops_high_water\<close> the maximum of 0 and \<^verbatim>\<open>num_purge_ops\<close> over
  all \<open>n + 1\<close> samples and \<^verbatim>\<open>files_high_water\<close> the maximum of 0 and
  \<^verbatim>\<open>num_strays_purging\<close> over all of them: sample \<open>n\<close>, the completing one, is included.
  Every run that leaves the loop by \<^verbatim>\<open>break\<close> is of this kind: its marks are the maxima
  over all the samples it took, the last of which reports 401 strays purged.
\<close>

theorem high_water_marks_are_maxima:
  assumes "tt = OPS_THROTTLE \<or> tt = FILES_THROTTLE"
    and "n < 600" and "\<forall>i<n. waiting mf (src i)" and "has_counters (src n)"
    and "counter (src n) ''strays_purged'' = 401"
  shows "(\<exists>st. purge_loop tt mo mf src initial = Inr st
            \<and> polls st = Suc n
            \<and> ops_high_water st =
                Max (insert 0 ((\<lambda>i. counter (src i) ''num_purge_ops'') ` {..<Suc n}))
            \<and> files_high_water st =
                Max (insert 0 ((\<lambda>i. counter (src i) ''num_strays_purging'') ` {..<Suc n})))
       \<and> (\<forall>st'. purge_loop tt mo mf src' initial = Inr st' \<longrightarrow>
            0 < polls st'
            \<and> ops_high_water st' =
                Max (insert 0 ((\<lambda>i. counter (src' i) ''num_purge_ops'') ` {..<polls st'}))
            \<and> files_high_water st' =
                Max (insert 0 ((\<lambda>i. counter (src' i) ''num_strays_purging'') ` {..<polls st'}))
            \<and> counter (src' (polls st' - 1)) ''strays_purged'' = 401)"
proof (intro conjI allI impI)
  have "purge_loop tt mo mf src initial = Inr (completed_at src n)"
    using purge_loop_sample [OF assms(1,2,3,4), of mo] assms(5) by simp
  then show "\<exists>st. purge_loop tt mo mf src initial = Inr st
            \<and> polls st = Suc n
            \<and> ops_high_water st =
                Max (insert 0 ((\<lambda>i. counter (src i) ''num_purge_ops'') ` {..<Suc n}))
            \<and> files_high_water st =
                Max (insert 0 ((\<lambda>i. counter (src i) ''num_strays_purging'') ` {..<Suc n}))"
    by (intro exI [of _ "completed_at src n"])
       (simp add: high_water_Max del: high_water.simps)
next
  fix st'
  assume run: "purge_loop tt mo mf src' initial = Inr st'"
  then have "0 < polls st'
      \<and> ops_high_water st' =
          Max (insert 0 ((\<lambda>i. counter (src' i) ''num_purge_ops'') ` {..<polls st'}))
      \<and> files_high_water st' =
          Max (insert 0 ((\<lambda>i. counter (src' i) ''num_strays_purging'') ` {..<polls st'}))
      \<and> counter (src' (polls st' - 1)) ''strays_purged'' = 401"
    by (rule_tac purge_loop_cases [OF assms(1), where mf = mf and src = src' and mo = mo])
       (auto simp add: high_water_Max simp del: high_water.simps)
  then show "0 < polls st'"
    and "ops_high_water st' =
          Max (insert 0 ((\<lambda>i. counter (src' i) ''num_purge_ops'') ` {..<polls st'}))"
    and "files_high_water st' =
          Max (insert 0 ((\<lambda>i. counter (src' i) ''num_strays_purging'') ` {..<polls st'}))"
    and "counter (src' (polls st' - 1)) ''strays_purged'' = 401"
    by simp_all
qed

theorem high_water_marks_are_maxima_witness:
  "\<exists>st. purge_loop OPS_THROTTLE 10 10
       (replay [mds_cache 20 9 0 4 401 0, mds_cache 20 5 0 7 401 200] (mds_cache 1 1 0 6 401 401))
       initial = Inr st
     \<and> polls st = 3 \<and> ops_high_water st = 7 \<and> files_high_water st = 9"
proof -
  let ?src = "replay [mds_cache 20 9 0 4 401 0, mds_cache 20 5 0 7 401 200] (mds_cache 1 1 0 6 401 401)"
  have kind: "OPS_THROTTLE = OPS_THROTTLE \<or> OPS_THROTTLE = FILES_THROTTLE"
    by simp
  have before: "\<forall>i<2. waiting 10 (?src i)"
    by (simp add: less_Suc_eq numeral_2_eq_2)
  have last: "has_counters (?src 2)" "counter (?src 2) ''strays_purged'' = 401"
    by (simp_all add: numeral_2_eq_2)
  have three: "{..<Suc 2} = {0, Suc 0, 2::nat}"
    by auto
  have ops: "Max (insert 0 ((\<lambda>i. counter (?src i) ''num_purge_ops'') ` {..<Suc 2})) = 7"
    unfolding three by (simp add: numeral_2_eq_2)
  have files: "Max (insert 0 ((\<lambda>i. counter (?src i) ''num_strays_purging'') ` {..<Suc 2})) = 9"
    unfolding three by (simp add: numeral_2_eq_2)
  from high_water_marks_are_maxima [OF kind _ before last, where mo = 10, THEN conjunct1]
  obtain st where "purge_loop OPS_THROTTLE 10 10 ?src initial = Inr st"
    and "polls st = Suc 2"
    and "ops_high_water st = Max (insert 0 ((\<lambda>i. counter (?src i) ''num_purge_ops'') ` {..<Suc 2}))"
    and "files_high_water st =
           Max (insert 0 ((\<lambda>i. counter (?src i) ''num_strays_purging'') ` {..<Suc 2}))"
    by auto
  with ops files show ?thesis
    by (intro exI [of _ st]) simp
qed

subsection \<open>The high-water heuristic\<close>

lemma and_then_Inr: "and_then r f = Inr x \<longleftrightarrow> (\<exists>v. r = Inr v \<and> f v = Inr x)"
  by (cases r) (simp_all add: and_then_def)

lemma and_then_Inl: "and_then r f = Inl e \<longleftrightarrow> (r = Inl e \<or> (\<exists>v. r = Inr v \<and> f v = Inl e))"
  by (cases r) (simp_all add: and_then_def)

lemma getitem_Inr: "getitem d k = Inr v \<longleftrightarrow> d k = Some v"
  by (simp add: getitem_def split: option.split)

lemma getitem_Inl: "getitem d k = Inl e \<longleftrightarrow> d k = None \<and> e = KeyError k"
  by (auto simp: getitem_def split: option.split)

lemma assertEqual_Inr: "assertEqual a b = Inr u \<longleftrightarrow> a = b"
  by (simp add: assertEqual_def)

lemma assertEqual_Inl: "assertEqual a b = Inl e \<longleftrightarrow> a \<noteq> b \<and> e = AssertionError a b"
  by (auto simp: assertEqual_def)

lemma sanity_check_iff: "sanity_check d = Inr () \<longleftrightarrow> all_purged d"
  by (simp add: sanity_check_def and_then_Inr getitem_Inr assertEqual_Inr all_purged_def)

lemma sanity_check_error: "sanity_check d = Inl e \<Longrightarrow> \<not> is_high_water_low e"
  by (auto simp: sanity_check_def and_then_Inl getitem_Inl assertEqual_Inl)

lemma test_throttling_completed:
  assumes "tt = OPS_THROTTLE \<or> tt = FILES_THROTTLE"
    and "purge_loop tt mo mf src initial = Inr st"
  shows "test_throttling tt mo mf src =
     and_then (high_water_check tt mo mf st) (\<lambda>_. sanity_check (src (polls st)))"
  using assms by (simp add: test_throttling_def and_then_def perf_dump_def)

lemma high_water_check_ops:
  "high_water_check OPS_THROTTLE mo mf st =
     (if ops_high_water st < mo div 2 then Inl (OpsHighWaterLow (ops_high_water st) mo) else Inr ())"
  by (simp add: high_water_check_def)

lemma high_water_check_files:
  "high_water_check FILES_THROTTLE mo mf st =
     (if files_high_water st < mf div 2 then Inl (FilesHighWaterLow (ops_high_water st) mo) else Inr ())"
  by (simp add: high_water_check_def OPS_THROTTLE_def FILES_THROTTLE_def)

text \<open>
  Claim C5. After a run has left the loop by \<^verbatim>\<open>break\<close>, the test fails with one of the
  two "high water is unexpectedly low" errors exactly when the high-water mark of the
  limit under test is below half that limit: \<^verbatim>\<open>ops_high_water < mds_max_purge_ops / 2\<close>
  in the ops kind, \<^verbatim>\<open>files_high_water < mds_max_purge_files / 2\<close> in the files kind,
  where \<^verbatim>\<open>/\<close> is the integer division of Python 2 (\<open>div\<close>).
\<close>

theorem high_water_heuristic:
  assumes "tt = OPS_THROTTLE \<or> tt = FILES_THROTTLE"
    and "purge_loop tt mo mf src initial = Inr st"
  shows "(tt = OPS_THROTTLE \<longrightarrow>
            ((\<exists>e. test_throttling tt mo mf src = Inl e \<and> is_high_water_low e) \<longleftrightarrow>
              ops_high_water st < mo div 2))
       \<and> (tt = FILES_THROTTLE \<longrightarrow>
            ((\<exists>e. test_throttling tt mo mf src = Inl e \<and> is_high_water_low e) \<longleftrightarrow>
              files_high_water st < mf div 2))"
proof -
  have run: "test_throttling tt mo mf src =
      and_then (high_water_check tt mo mf st) (\<lambda>_. sanity_check (src (polls st)))"
    using assms by (rule test_throttling_completed)
  have ops: "(\<exists>e. test_throttling tt mo mf src = Inl e \<and> is_high_water_low e) \<longleftrightarrow>
          ops_high_water st < mo div 2" if "tt = OPS_THROTTLE"
    using sanity_check_error [of "src (polls st)"] run [unfolded that]
    unfolding that by (auto simp: high_water_check_ops and_then_def)
  have files: "(\<exists>e. test_throttling tt mo mf src = Inl e \<and> is_high_water_low e) \<longleftrightarrow>
          files_high_water st < mf div 2" if "tt = FILES_THROTTLE"
    using sanity_check_error [of "src (polls st)"] run [unfolded that]
    unfolding that by (auto simp: high_water_check_files and_then_def)
  from ops files show ?thesis by blast
qed

theorem high_water_heuristic_witness:
  "\<exists>e. test_throttling FILES_THROTTLE 100000000 10 (replay [] (mds_cache 3 3 0 8 401 401)) = Inl e
       \<and> is_high_water_low e"
proof -
  let ?src = "replay [] (mds_cache 3 3 0 8 401 401)"
  have kind: "FILES_THROTTLE = OPS_THROTTLE \<or> FILES_THROTTLE = FILES_THROTTLE"
    by simp
  have run: "purge_loop FILES_THROTTLE 100000000 10 ?src initial
      = Inr \<lparr>elapsed = 0, files_high_water = 3, ops_high_water = 8, polls = 1\<rparr>"
    using purge_loop_sample [of FILES_THROTTLE 0 10 ?src 100000000]
    by (simp add: completed_at_def after_waiting_def)
  from high_water_heuristic [OF kind run] show ?thesis
    by simp
qed

subsection \<open>The final sanity check\<close>

text \<open>
  Claim C8. After a run has left the loop by \<^verbatim>\<open>break\<close>, the test succeeds exactly when
  the high-water check passes and the next dictionary of the source (the one polled
  after the loop) has \<^verbatim>\<open>num_strays\<close>, \<^verbatim>\<open>num_strays_purging\<close>, \<^verbatim>\<open>num_strays_delayed\<close>
  and \<^verbatim>\<open>num_purge_ops\<close> at 0, and \<^verbatim>\<open>strays_created\<close> and \<^verbatim>\<open>strays_purged\<close> at 401.
  With any other final dictionary the test raises.
\<close>

theorem final_sanity_check:
  assumes "tt = OPS_THROTTLE \<or> tt = FILES_THROTTLE"
    and "purge_loop tt mo mf src initial = Inr st"
  shows "test_throttling tt mo mf src = Inr () \<longleftrightarrow>
           high_water_check tt mo mf st = Inr () \<and>
           src (polls st) ''num_strays'' = Some 0 \<and>
           src (polls st) ''num_strays_purging'' = Some 0 \<and>
           src (polls st) ''num_strays_delayed'' = Some 0 \<and>
           src (polls st) ''num_purge_ops'' = Some 0 \<and>
           src (polls st) ''strays_created'' = Some 401 \<and>
           src (polls st) ''strays_purged'' = Some 401"
  unfolding test_throttling_completed [OF assms]
  by (simp add: and_then_Inr sanity_check_iff all_purged_def total_inodes_def)

theorem final_sanity_check_witness:
  "test_throttling FILES_THROTTLE 100000000 10
     (replay [mds_cache 9 6 3 8 401 401] (mds_cache 0 0 0 0 401 401)) = Inr ()"
proof -
  let ?src = "replay [mds_cache 9 6 3 8 401 401] (mds_cache 0 0 0 0 401 401)"
  have kind: "FILES_THROTTLE = OPS_THROTTLE \<or> FILES_THROTTLE = FILES_THROTTLE"
    by simp
  have run: "purge_loop FILES_THROTTLE 100000000 10 ?src initial
      = Inr \<lparr>elapsed = 0, files_high_water = 6, ops_high_water = 8, polls = 1\<rparr>"
    using purge_loop_sample [of FILES_THROTTLE 0 10 ?src 100000000]
    by (simp add: completed_at_def after_waiting_def)
  from final_sanity_check [OF kind run] show ?thesis
    by (simp add: high_water_check_files mds_cache_def)
qed

subsection \<open>The workload\<close>

lemma py_range_sizes: "py_range 0 (16 * MB) MB = map (\<lambda>k. k * MB) [0..<16]"
  by (simp add: py_range_def MB_def)

lemma py_range_files: "py_range 0 25 (Suc 0) = [0..<25]"
  by (simp add: py_range_def map_idI)

lemma digit_in_digits: "d < 10 \<Longrightarrow> digits ! d \<in> set digits"
  by (rule nth_mem) (simp add: digits_def)

lemma digit_eq: "a < 10 \<Longrightarrow> b < 10 \<Longrightarrow> digits ! a = digits ! b \<longleftrightarrow> a = b"
  by (rule nth_eq_iff_index_eq) (simp_all add: digits_def)

lemma str_nat_small: "n < 10 \<Longrightarrow> str_nat n = [digits ! n]"
  by (subst str_nat.simps) simp

lemma str_nat_large: "\<not> n < 10 \<Longrightarrow> str_nat n = str_nat (n div 10) @ [digits ! (n mod 10)]"
  by (subst str_nat.simps) simp

lemma str_nat_nonempty: "str_nat n \<noteq> []"
  by (cases "n < 10") (simp_all add: str_nat_small str_nat_large)

lemma str_nat_digits: "set (str_nat n) \<subseteq> set digits"
proof (induction n rule: str_nat.induct)
  case (1 n)
  show ?case
  proof (cases "n < 10")
    case True
    then show ?thesis
      using digit_in_digits [of n] by (simp add: str_nat_small)
  next
    case False
    then have "set (str_nat (n div 10)) \<subseteq> set digits"
      by (rule "1.IH")
    moreover have "digits ! (n mod 10) \<in> set digits"
      by (rule digit_in_digits) simp
    ultimately show ?thesis
      using False by (simp add: str_nat_large)
  qed
qed

lemma str_nat_inj: "str_nat a = str_nat b \<Longrightarrow> a = b"
proof (induction a arbitrary: b rule: str_nat.induct)
  case (1 a)
  show ?case
  proof (cases "a < 10")
    case a: True
    show ?thesis
    proof (cases "b < 10")
      case True
      with a "1.prems" show ?thesis
        by (simp add: str_nat_small digit_eq)
    next
      case False
      with a "1.prems" str_nat_nonempty [of "b div 10"] show ?thesis
        by (simp add: str_nat_small str_nat_large Cons_eq_append_conv)
    qed
  next
    case a: False
    show ?thesis
    proof (cases "b < 10")
      case True
      with a "1.prems" str_nat_nonempty [of "a div 10"] show ?thesis
        by (simp add: str_nat_small str_nat_large append_eq_Cons_conv)
    next
      case False
      with a "1.prems" have "str_nat (a div 10) = str_nat (b div 10)"
        and "digits ! (a mod 10) = digits ! (b mod 10)"
        by (simp_all add: str_nat_large)
      then have "a div 10 = b div 10" and "a mod 10 = b mod 10"
        using a "1.IH" by (simp_all add: digit_eq)
      then show ?thesis
        by (metis div_mult_mod_eq)
    qed
  qed
qed

lemma filename_inj:
  assumes "filename i k = filename i' k'"
  shows "i = i' \<and> k = k'"
proof -
  have no_sep: "\<And>n c. c \<in> set (str_nat n) \<Longrightarrow> c \<noteq> CHR ''_''"
    using str_nat_digits by (auto simp: digits_def)
  have "takeWhile (\<lambda>c. c \<noteq> CHR ''_'') (filename n m) = str_nat n" for n m
    using no_sep [of _ n] by (simp add: filename_def takeWhile_append2)
  with assms have "str_nat i = str_nat i'"
    by metis
  then have i: "i = i'"
    by (rule str_nat_inj)
  with assms have "str_nat k = str_nat k'"
    by (simp add: filename_def)
  then have "k = k'"
    by (rule str_nat_inj)
  with i show ?thesis ..
qed


lemma filename_example: "filename 12 7 = ''12_7MB.bin''"
  by (simp add: filename_def digits_def str_nat_small str_nat_large)

lemma concat_map_product:
  "concat (map (\<lambda>i. map (f i) ys) xs) = map (\<lambda>(i, k). f i k) (List.product xs ys)"
  by (induction xs) simp_all

lemma create_script_workload:
  "create_script = Mkdir subdir # map (\<lambda>((d, name), n). WriteFile d name n) workload"
proof -
  have "(k * MB) div MB = k" for k
    by (simp add: MB_def)
  then show ?thesis
    by (simp add: create_script_def py_range_sizes py_range_files concat_map_product
          workload_def comp_def split_def)
qed

lemma run_script_writes:
  assumes "\<forall>w \<in> set ws. fst (fst w) \<in> set (dirs m)"
    and "distinct (map fst ws)"
    and "\<forall>w \<in> set ws. fst w \<notin> fst ` set (files m)"
  shows "run_script m (map (\<lambda>((d, name), n). WriteFile d name n) ws) =
           Inr (m\<lparr>files := rev ws @ files m\<rparr>)"
  using assms
proof (induction ws arbitrary: m)
  case Nil
  show ?case by simp
next
  case (Cons w ws)
  obtain d name n where w: "w = ((d, name), n)"
    by (metis surj_pair)
  have keep: "filter (\<lambda>f. fst f \<noteq> (d, name)) (files m) = files m"
    using Cons.prems(3) w by (force simp: filter_id_conv)
  let ?m = "m\<lparr>files := w # files m\<rparr>"
  have step: "perform m (WriteFile d name n) = Inr ?m"
    using Cons.prems(1) w keep by simp
  have "run_script ?m (map (\<lambda>((d, name), n). WriteFile d name n) ws) =
          Inr (?m\<lparr>files := rev ws @ files ?m\<rparr>)"
  proof (rule Cons.IH)
    show "\<forall>v \<in> set ws. fst (fst v) \<in> set (dirs ?m)"
      using Cons.prems(1) by simp
    show "distinct (map fst ws)"
      using Cons.prems(2) by simp
    show "\<forall>v \<in> set ws. fst v \<notin> fst ` set (files ?m)"
      using Cons.prems(2,3) by force
  qed
  with step w show ?case
    by simp
qed

lemma workload_distinct: "distinct (map fst workload)"
proof -
  have "inj_on (\<lambda>(i, k). (subdir, filename i k)) (set (List.product [0..<25] [0..<16]))"
    by (rule inj_onI) (auto dest: filename_inj)
  then have "distinct (map (\<lambda>(i, k). (subdir, filename i k)) (List.product [0..<25] [0..<16]))"
    by (simp add: distinct_map distinct_product)
  moreover have "map fst workload =
      map (\<lambda>(i, k). (subdir, filename i k)) (List.product [0..<25] [0..<16])"
    by (simp add: workload_def comp_def split_def)
  ultimately show ?thesis by simp
qed

lemma run_create_script:
  "run_script empty_mount create_script = Inr \<lparr>dirs = [subdir], files = rev workload\<rparr>"
proof -
  let ?m = "\<lparr>dirs = [subdir], files = []\<rparr>"
  have "run_script ?m (map (\<lambda>((d, name), n). WriteFile d name n) workload) =
          Inr (?m\<lparr>files := rev workload @ files ?m\<rparr>)"
    using workload_distinct by (intro run_script_writes) (auto simp: workload_def)
  then show ?thesis
    by (simp add: create_script_workload empty_mount_def)
qed


text \<open>
  Claim C6. Run on an empty mount, the script succeeds and leaves exactly one directory,
  \<^verbatim>\<open>delete_me\<close>, and 25 * 16 = 400 files with distinct names in it: for each \<open>i\<close> below
  25 and each \<open>k\<close> below 16 the file named by \<open>i\<close> and \<open>k\<close>, of \<open>k\<close> megabytes, and no
  other. Directory and files together are 401 objects, which is \<^verbatim>\<open>total_inodes\<close>, the
  count the loop compares \<^verbatim>\<open>strays_purged\<close> with.
\<close>

theorem workload_is_401_objects:
  "\<exists>m. run_script empty_mount create_script = Inr m
     \<and> dirs m = [''delete_me'']
     \<and> length (files m) = 25 * 16
     \<and> distinct (map fst (files m))
     \<and> set (files m) =
         (\<lambda>(i, k). ((''delete_me'', filename i k), k * (1024 * 1024))) ` ({..<25} \<times> {..<16})
     \<and> (\<forall>i<25. \<forall>k<16.
          map_of (files m) (''delete_me'', filename i k) = Some (k * (1024 * 1024)))
     \<and> int (length (dirs m) + length (files m)) = total_inodes
     \<and> total_inodes = 401"
proof -
  let ?m = "\<lparr>dirs = [subdir], files = rev workload\<rparr>"
  have len: "length (files ?m) = 25 * 16"
    by (simp add: workload_def)
  have dist: "distinct (map fst (files ?m))"
    using workload_distinct by (simp add: rev_map [symmetric])
  have elems: "set (files ?m) =
      (\<lambda>(i, k). ((''delete_me'', filename i k), k * (1024 * 1024))) ` ({..<25} \<times> {..<16})"
    by (simp add: workload_def subdir_def MB_def atLeast0LessThan)
  have "map_of (files ?m) (''delete_me'', filename i k) = Some (k * (1024 * 1024))"
    if "i < 25" "k < 16" for i k
  proof (rule map_of_is_SomeI [OF dist])
    show "((''delete_me'', filename i k), k * (1024 * 1024)) \<in> set (files ?m)"
      unfolding elems using that
      by (intro image_eqI [where x = "(i, k)"]) simp_all
  qed
  with len dist elems have "dirs ?m = [''delete_me'']
     \<and> length (files ?m) = 25 * 16
     \<and> distinct (map fst (files ?m))
     \<and> set (files ?m) =
         (\<lambda>(i, k). ((''delete_me'', filename i k), k * (1024 * 1024))) ` ({..<25} \<times> {..<16})
     \<and> (\<forall>i<25. \<forall>k<16.
          map_of (files ?m) (''delete_me'', filename i k) = Some (k * (1024 * 1024)))
     \<and> int (length (dirs ?m) + length (files ?m)) = total_inodes
     \<and> total_inodes = 401"
    by (simp add: subdir_def total_inodes_def)
  with run_create_script show ?thesis
    by blast
qed

theorem workload_is_401_objects_witness:
  "\<exists>m. run_script empty_mount create_script = Inr m
     \<and> map_of (files m) (''delete_me'', ''12_7MB.bin'') = Some 7340032
     \<and> length (dirs m) + length (files m) = 401"
proof -
  from workload_is_401_objects obtain m where
    run: "run_script empty_mount create_script = Inr m"
    and lookup: "\<forall>i<25. \<forall>k<16.
          map_of (files m) (''delete_me'', filename i k) = Some (k * (1024 * 1024))"
    and count: "int (length (dirs m) + length (files m)) = total_inodes"
    by blast
  from lookup have "map_of (files m) (''delete_me'', filename 12 7) = Some (7 * (1024 * 1024))"
    by simp
  then have "map_of (files m) (''delete_me'', ''12_7MB.bin'') = Some 7340032"
    by (simp add: filename_example)
  moreover from count have "length (dirs m) + length (files m) = 401"
    by (simp add: total_inodes_def)
  ultimately show ?thesis
    using run by blast
qed

end
